theory Spec2Isabelle
  imports Complex_Main "HOL-Library.AList" "HOL-Library.Log_Nat"
begin

section \<open>The environment: what the operating system answers\<close>

text \<open>
  \<^verbatim>\<open>disk/usage.py\<close> talks to the operating system through \<^verbatim>\<open>os.statvfs\<close>,
  \<^verbatim>\<open>os.stat\<close>, \<^verbatim>\<open>os.walk\<close>, \<^verbatim>\<open>os.path.ismount\<close> and \<^verbatim>\<open>os.path.join\<close>.
  Their answers are data of the model: a record for each result structure, \<open>None\<close> where the
  call raises \<^verbatim>\<open>OSError\<close>, and a finite tree for the directories that \<^verbatim>\<open>os.walk\<close> can list.
  Python integers are unbounded, so they are \<open>int\<close>.
\<close>

datatype error = OSError | ZeroDivisionError | AttributeError

record statvfs_result =
  f_bsize :: int
  f_frsize :: int
  f_blocks :: int
  f_bfree :: int
  f_bavail :: int
  f_files :: int
  f_ffree :: int
  f_favail :: int

record stat_result =
  st_size :: int
  st_mtime :: rat

text \<open>
  A directory as \<^verbatim>\<open>os.walk\<close> sees it: the entries that are not directories, each with the
  answer \<^verbatim>\<open>os.stat\<close> gives for it (\<open>None\<close>: \<^verbatim>\<open>OSError\<close>, as for a broken symbolic link), and
  the entries that are directories, each with its own content. A directory that cannot be
  listed, or a symbolic link to a directory, is named by its parent and yields nothing when
  entered (\<open>Unlistable\<close>).
\<close>

datatype fs_dir =
  FsDir "(string \<times> stat_result option) list" "(string \<times> fs_dir) list"
  | Unlistable

text \<open>\<^verbatim>\<open>posixpath.join\<close> for two components.\<close>

definition startswith_sep :: "string \<Rightarrow> bool" where
  "startswith_sep b = (case b of [] \<Rightarrow> False | c # _ \<Rightarrow> c = CHR ''/'')"

definition path_join :: "string \<Rightarrow> string \<Rightarrow> string" where
  "path_join a b =
     (if startswith_sep b then b
      else if a = [] \<or> last a = CHR ''/'' then a @ b
      else a @ ''/'' @ b)"

section \<open>Floating-point sizes\<close>

text \<open>
  \<^verbatim>\<open>_get_file_data\<close> stores \<^verbatim>\<open>float(file_stat.st_size)\<close>, and \<^verbatim>\<open>_add_up_dir\<close> adds such
  values with \<^verbatim>\<open>+=\<close>. Every value that occurs is a double whose value is an integer, so it is
  modelled by that integer. \<open>py_float n\<close> is the double nearest to the integer \<open>n\<close> (53
  significant bits, ties to the even significand), which is what \<^verbatim>\<open>float(n)\<close> returns; the sum
  of two doubles is the double nearest to the exact sum. Byte counts stay far below the
  overflow threshold of doubles.
\<close>

definition py_float :: "int \<Rightarrow> int" where
  "py_float n =
     (let a = \<bar>n\<bar>;
          e = nat (bitlen a - 53);
          q = a div 2 ^ e;
          r = a mod 2 ^ e
      in sgn n * (if 2 * r > 2 ^ e \<or> (2 * r = 2 ^ e \<and> odd q) then q + 1 else q) * 2 ^ e)"

definition py_add :: "int \<Rightarrow> int \<Rightarrow> int" where
  "py_add a b = py_float (a + b)"

section \<open>The state of a \<^verbatim>\<open>DiskUsage\<close> object\<close>

text \<open>
  The \<^verbatim>\<open>DottedDict\<close> objects become records. A file record built after a failed
  \<^verbatim>\<open>os.stat\<close> has only its \<^verbatim>\<open>size\<close> key, so \<open>name\<close> and \<open>modified\<close> are optional.
  \<^verbatim>\<open>_dirs_holder\<close> is a Python dict: an association list in insertion order.
\<close>

record file_data =
  name :: "string option"
  modified :: "rat option"
  fsize :: int

record dir_data =
  dir_name :: string
  dir_size :: int

record partition_data =
  free :: int
  total' :: int
  used :: int
  inodes_free :: int
  inodes_total :: int
  inodes_used :: int

record disk_usage =
  activity :: string
  dirs_holder :: "(string \<times> int) list"
  dir_count :: nat
  dirs :: "dir_data list"
  exclude_root_dirs :: "string list"
  file_count :: nat
  files :: "file_data list"
  partition' :: "partition_data option"

text \<open>The assignments of \<^verbatim>\<open>__init__\<close> before the two method calls.\<close>

definition init_state :: disk_usage where
  "init_state =
     \<lparr>activity = [], dirs_holder = [], dir_count = 0, dirs = [],
      exclude_root_dirs = [''dev'', ''proc'', ''selinux''],
      file_count = 0, files = [], partition' = None\<rparr>"

section \<open>The methods\<close>

definition add_up_dir :: "string \<Rightarrow> file_data \<Rightarrow> disk_usage \<Rightarrow> disk_usage" where
  "add_up_dir rootdir fd s =
     (case map_of (dirs_holder s) rootdir of
        Some v \<Rightarrow> s\<lparr>dirs_holder := AList.update rootdir (py_add v (fsize fd)) (dirs_holder s)\<rparr>
      | None \<Rightarrow> s\<lparr>dirs_holder := AList.update rootdir (fsize fd) (dirs_holder s)\<rparr>)"

text \<open>
  \<^verbatim>\<open>root is '/'\<close> compares identities; CPython keeps one object for every one-character
  string, so the test succeeds exactly when \<^verbatim>\<open>root\<close> is the string \<^verbatim>\<open>/\<close>.
\<close>

definition filter_dirs ::
  "(string \<Rightarrow> bool) \<Rightarrow> disk_usage \<Rightarrow> string \<Rightarrow> string list \<Rightarrow> string list" where
  "filter_dirs ismount s rootdir ds =
     (let ds1 = filter (\<lambda>d. \<not> ismount (path_join rootdir d)) ds
      in if rootdir = ''/'' then filter (\<lambda>d. d \<notin> set (exclude_root_dirs s)) ds1 else ds1)"

definition get_file_data :: "string \<Rightarrow> stat_result option \<Rightarrow> file_data" where
  "get_file_data filename os_stat =
     (case os_stat of
        Some file_stat \<Rightarrow>
          \<lparr>name = Some filename, modified = Some (st_mtime file_stat),
           fsize = py_float (st_size file_stat)\<rparr>
      | None \<Rightarrow> \<lparr>name = None, modified = None, fsize = 0\<rparr>)"

definition get_partition_usage :: "statvfs_result \<Rightarrow> disk_usage \<Rightarrow> disk_usage" where
  "get_partition_usage st s =
     s\<lparr>partition' := Some
        \<lparr>free = f_bavail st * f_frsize st,
         total' = f_blocks st * f_frsize st,
         used = (f_blocks st - f_bfree st) * f_frsize st,
         inodes_free = f_favail st,
         inodes_total = f_files st,
         inodes_used = f_files st - f_favail st\<rparr>\<rparr>"

text \<open>
  \<^verbatim>\<open>sorted(..., key=..., reverse=True)\<close> is a stable sort by descending key: elements with
  equal keys keep their order. \<open>sort_key\<close> is a stable insertion sort, here on the negated key.
\<close>

definition sorted_reverse :: "('a \<Rightarrow> int) \<Rightarrow> 'a list \<Rightarrow> 'a list" where
  "sorted_reverse key xs = sort_key (\<lambda>x. - key x) xs"

definition sort_files_list :: "disk_usage \<Rightarrow> file_data list" where
  "sort_files_list s = sorted_reverse fsize (files s)"

definition process_files :: "file_data \<Rightarrow> disk_usage \<Rightarrow> disk_usage" where
  "process_files fd s =
     (let s1 = s\<lparr>files := files s @ [fd]\<rparr>;
          s2 = s1\<lparr>files := sort_files_list s1\<rparr>
      in if length (files s2) \<ge> 21 then s2\<lparr>files := butlast (files s2)\<rparr> else s2)"

text \<open>The writes to standard output are not part of the state; the attribute is.\<close>

definition show_activity :: "disk_usage \<Rightarrow> disk_usage" where
  "show_activity s =
     (let s1 = (if length (activity s) = 5 then s\<lparr>activity := []\<rparr> else s)
      in if file_count s1 mod 5000 = 0 then s1\<lparr>activity := activity s1 @ ''.''\<rparr> else s1)"

text \<open>
  \<^verbatim>\<open>del self._activity\<close> and \<^verbatim>\<open>del self._dirs_holder\<close> remove attributes that are never
  read again; the model empties them.
\<close>

definition remove_activity :: "disk_usage \<Rightarrow> disk_usage" where
  "remove_activity s = s\<lparr>activity := []\<rparr>"

definition sort_dirs :: "disk_usage \<Rightarrow> disk_usage" where
  "sort_dirs s =
     (let ds = dirs s @ map (\<lambda>(k, v). \<lparr>dir_name = k, dir_size = v\<rparr>)
                          (sorted_reverse snd (dirs_holder s))
      in s\<lparr>dirs_holder := [], dir_count := length ds, dirs := take 10 ds\<rparr>)"

subsection \<open>The walk\<close>

text \<open>
  \<^verbatim>\<open>os.walk(top)\<close>, top down: it lists \<open>top\<close>, yields \<open>(top, dirs, files)\<close>, and when the
  consumer asks for the next item it enters, in order, each name that the consumer has left in
  \<open>dirs\<close>. The consumer's in-place edit of \<open>dirs\<close> is the parameter \<open>flt\<close>. Errors of the listing
  are ignored (\<^verbatim>\<open>onerror=None\<close>). Each yielded file name carries the answer of \<^verbatim>\<open>os.stat\<close>.
\<close>

type_synonym walk_item = "string \<times> string list \<times> (string \<times> stat_result option) list"

function os_walk ::
  "(string \<Rightarrow> string list \<Rightarrow> string list) \<Rightarrow> string \<Rightarrow> fs_dir \<Rightarrow> walk_item list" where
  "os_walk flt topdir Unlistable = []"
| "os_walk flt topdir (FsDir fs subs) =
     (let ds = flt topdir (map fst subs)
      in (topdir, ds, fs) #
         concat (map (\<lambda>d. case map_of subs d of
                            None \<Rightarrow> []
                          | Some t \<Rightarrow> os_walk flt (path_join topdir d) t) ds))"
  by pat_completeness auto

termination os_walk
proof (relation "measure (\<lambda>(flt, topdir, t). size t)")
  show "wf (measure (\<lambda>(flt, topdir, t). size t))"
    by simp
next
  fix flt :: "string \<Rightarrow> string list \<Rightarrow> string list"
  fix topdir :: string and fs :: "(string \<times> stat_result option) list"
  fix subs :: "(string \<times> fs_dir) list" and d :: string and t :: fs_dir
  assume "map_of subs d = Some t"
  then have "size t < Suc (size_list (size_prod (\<lambda>_. 0) size) subs)"
    by (induction subs) (auto split: if_splits)
  then show "((flt, path_join topdir d, t), (flt, topdir, FsDir fs subs))
      \<in> measure (\<lambda>(flt, topdir, t). size t)"
    by simp
qed

text \<open>The body of the inner loop of \<^verbatim>\<open>_walk_filesystem\<close>, for one file name.\<close>

definition walk_file :: "string \<Rightarrow> disk_usage \<Rightarrow> string \<times> stat_result option \<Rightarrow> disk_usage" where
  "walk_file rootdir s entry =
     (let filename = path_join rootdir (fst entry);
          fd = get_file_data filename (snd entry);
          s1 = s\<lparr>file_count := file_count s + 1\<rparr>;
          s2 = show_activity s1;
          s3 = process_files fd s2
      in add_up_dir rootdir fd s3)"

definition walk_dir :: "disk_usage \<Rightarrow> walk_item \<Rightarrow> disk_usage" where
  "walk_dir s item = (case item of (rootdir, ds, fs) \<Rightarrow> foldl (walk_file rootdir) s fs)"

text \<open>The two loops, before \<^verbatim>\<open>_remove_activity\<close> and \<^verbatim>\<open>_sort_dirs\<close> run.\<close>

definition walk_loop :: "(string \<Rightarrow> bool) \<Rightarrow> string \<Rightarrow> fs_dir \<Rightarrow> disk_usage \<Rightarrow> disk_usage" where
  "walk_loop ismount target tree s =
     foldl walk_dir s (os_walk (filter_dirs ismount s) target tree)"

definition walk_filesystem ::
  "(string \<Rightarrow> bool) \<Rightarrow> string \<Rightarrow> fs_dir \<Rightarrow> disk_usage \<Rightarrow> disk_usage" where
  "walk_filesystem ismount target tree s =
     sort_dirs (remove_activity (walk_loop ismount target tree s))"

text \<open>
  \<^verbatim>\<open>DiskUsage(target)\<close>: \<^verbatim>\<open>os.statvfs\<close> may raise, and nothing catches it.
\<close>

definition DiskUsage ::
  "statvfs_result option \<Rightarrow> (string \<Rightarrow> bool) \<Rightarrow> fs_dir \<Rightarrow> string \<Rightarrow> error + disk_usage" where
  "DiskUsage os_statvfs ismount tree target =
     (case os_statvfs of
        None \<Rightarrow> Inl OSError
      | Some st \<Rightarrow> Inr (walk_filesystem ismount target tree (get_partition_usage st init_state)))"

section \<open>The report\<close>

text \<open>
  \<^verbatim>\<open>calculate_percent\<close> works on doubles: \<^verbatim>\<open>float(free) / float(total) * 100\<close>, rounded by
  \<^verbatim>\<open>round(..., 2)\<close>. The arithmetic of doubles and the rendering of values as text are
  parameters of the model (\<open>runtime\<close>), so that what is proved holds for whatever they
  compute. \<^verbatim>\<open>units.to_human_readable\<close> comes from the module \<^verbatim>\<open>utils\<close> and is a parameter as
  well. Float division raises \<^verbatim>\<open>ZeroDivisionError\<close> exactly when the divisor is zero, and
  \<^verbatim>\<open>float(total)\<close> is zero exactly when the integer \<^verbatim>\<open>total\<close> is.
\<close>

record 'f runtime =
  float_of_int :: "int \<Rightarrow> 'f"
  float_div :: "'f \<Rightarrow> 'f \<Rightarrow> 'f"
  float_mul :: "'f \<Rightarrow> 'f \<Rightarrow> 'f"
  float_round :: "'f \<Rightarrow> int \<Rightarrow> 'f"
  str_of_float :: "'f \<Rightarrow> string"
  str_of_int :: "int \<Rightarrow> string"
  to_human_readable :: "int \<Rightarrow> string"

definition calculate_percent :: "'f runtime \<Rightarrow> int \<Rightarrow> int \<Rightarrow> error + 'f" where
  "calculate_percent rt fr tot =
     (if tot = 0 then Inl ZeroDivisionError
      else Inr (float_round rt
                  (float_mul rt (float_div rt (float_of_int rt fr) (float_of_int rt tot))
                                (float_of_int rt 100)) 2))"

definition format_partition_output ::
  "'f runtime \<Rightarrow> string list \<Rightarrow> disk_usage \<Rightarrow> string \<Rightarrow> error + string list" where
  "format_partition_output rt output disk target =
     (case partition' disk of
        None \<Rightarrow> Inl AttributeError
      | Some p \<Rightarrow>
         (case calculate_percent rt (free p) (total' p) of
            Inl e \<Rightarrow> Inl e
          | Inr pct \<Rightarrow>
             (let output1 = output @ [str_of_float rt pct @ ''% available disk space on '' @ target];
                  output2 = output1 @
                    [''Total: '' @ to_human_readable rt (total' p) @ [CHR 0x09] @
                     ''Used: '' @ to_human_readable rt (used p) @ [CHR 0x09] @
                     ''Free: '' @ to_human_readable rt (free p) @ [CHR 0x0A]]
              in case calculate_percent rt (inodes_free p) (inodes_total p) of
                   Inl e \<Rightarrow> Inl e
                 | Inr ipct \<Rightarrow>
                    Inr (output2 @
                      [str_of_float rt ipct @ ''% of Total Inodes are free.'',
                       ''Total Inodes: '' @ str_of_int rt (inodes_total p) @ [CHR 0x09] @
                       ''Used: '' @ str_of_int rt (inodes_used p) @ [CHR 0x09] @
                       ''Free: '' @ str_of_int rt (inodes_free p) @ [CHR 0x0A]]))))"

section \<open>Notions used to state the properties\<close>

text \<open>The state in which \<^verbatim>\<open>__init__\<close> starts the walk.\<close>

definition start_state :: "statvfs_result \<Rightarrow> disk_usage" where
  "start_state st = get_partition_usage st init_state"

text \<open>
  The stream of file entries that the two loops process, in order: each with the directory
  it was listed in. \<open>walk_events\<close> runs the body of the inner loop over such a stream, so
  its values are the states that the walk passes through.
\<close>

definition stream_of :: "walk_item list \<Rightarrow> (string \<times> string \<times> stat_result option) list" where
  "stream_of items = concat (map (\<lambda>(rootdir, ds, fs). map (Pair rootdir) fs) items)"

definition walk_events ::
  "disk_usage \<Rightarrow> (string \<times> string \<times> stat_result option) list \<Rightarrow> disk_usage" where
  "walk_events s evs = foldl (\<lambda>s ev. walk_file (fst ev) s (snd ev)) s evs"

text \<open>The file record that the walk builds for an entry of the stream.\<close>

definition record_of :: "string \<times> string \<times> stat_result option \<Rightarrow> file_data" where
  "record_of ev = get_file_data (path_join (fst ev) (fst (snd ev))) (snd (snd ev))"

text \<open>The sizes that \<^verbatim>\<open>os.stat\<close> reported, for the entries whose \<^verbatim>\<open>os.stat\<close> succeeded.\<close>

definition stat_sizes :: "(string \<times> string \<times> stat_result option) list \<Rightarrow> int list" where
  "stat_sizes evs = concat (map (\<lambda>ev. case snd (snd ev) of None \<Rightarrow> [] | Some r \<Rightarrow> [st_size r]) evs)"

text \<open>Descending order of sizes.\<close>

definition sorted_desc :: "('a \<Rightarrow> int) \<Rightarrow> 'a list \<Rightarrow> bool" where
  "sorted_desc key xs = sorted_wrt (\<lambda>a b. key a \<ge> key b) xs"

text \<open>
  A tree without its nested mount points: every subdirectory whose path is a mount point is
  removed from the listing of its parent, with all that lies under it.
\<close>

fun prune_mounts :: "(string \<Rightarrow> bool) \<Rightarrow> string \<Rightarrow> fs_dir \<Rightarrow> fs_dir" where
  "prune_mounts ismount topdir Unlistable = Unlistable"
| "prune_mounts ismount topdir (FsDir fs subs) =
     FsDir fs (map (\<lambda>(d, t). (d, prune_mounts ismount (path_join topdir d) t))
                   (filter (\<lambda>(d, t). \<not> ismount (path_join topdir d)) subs))"

subsection \<open>Example data\<close>

text \<open>No path is a mount point.\<close>

definition no_mounts :: "string \<Rightarrow> bool" where
  "no_mounts p = False"

definition example_statvfs :: statvfs_result where
  "example_statvfs =
     \<lparr>f_bsize = 4096, f_frsize = 4096, f_blocks = 100, f_bfree = 50, f_bavail = 40,
      f_files = 1000, f_ffree = 900, f_favail = 900\<rparr>"

text \<open>A regular file of the given size.\<close>

definition reg :: "string \<Rightarrow> int \<Rightarrow> string \<times> stat_result option" where
  "reg nm sz = (nm, Some \<lparr>st_size = sz, st_mtime = 0\<rparr>)"

text \<open>Twenty-five files with the sizes 100, 200, ..., 2500, in no particular order.\<close>

definition files25 :: "(string \<times> stat_result option) list" where
  "files25 =
     map (\<lambda>n. reg (''f'' @ [char_of (97 + n)]) (100 * (int n + 1)))
       [12, 3, 24, 0, 7, 19, 1, 15, 22, 9, 4, 17, 11, 6, 23, 2, 14, 20, 8, 13, 5, 18, 10, 21, 16]"

text \<open>A target without files of its own, with one subdirectory that holds one file.\<close>

definition tree_sub_only :: fs_dir where
  "tree_sub_only = FsDir [] [(''sub'', FsDir [reg ''f'' 7] [])]"

text \<open>
  A target \<^verbatim>\<open>/t\<close> with two mount points below it, \<^verbatim>\<open>/t/m\<close> and \<^verbatim>\<open>/t/s/n\<close>, each with files
  under it.
\<close>

definition example_ismount :: "string \<Rightarrow> bool" where
  "example_ismount p = (p = ''/t/m'' \<or> p = ''/t/s/n'')"

definition tree_with_mounts :: fs_dir where
  "tree_with_mounts =
     FsDir [reg ''a'' 10]
       [(''m'', FsDir [reg ''x'' 1000] [(''deep'', FsDir [reg ''y'' 2000] [])]),
        (''s'', FsDir [reg ''b'' 20] [(''n'', FsDir [reg ''z'' 3000] [])])]"

text \<open>A filesystem root with the three pseudo-filesystem directories and a home directory.\<close>

definition root_tree :: fs_dir where
  "root_tree =
     FsDir [reg ''vmlinuz'' 5]
       [(''dev'', FsDir [reg ''sda'' 100] []),
        (''proc'', FsDir [reg ''kcore'' 200] [(''1'', FsDir [reg ''mem'' 300] [])]),
        (''selinux'', FsDir [reg ''enforce'' 400] []),
        (''home'', FsDir [reg ''u'' 9] [])]"

text \<open>One directory with a file of \<open>2 ^ 53\<close> bytes and two files of one byte.\<close>

definition tree_huge :: fs_dir where
  "tree_huge = FsDir [reg ''big'' (2 ^ 53), reg ''b1'' 1, reg ''b2'' 1] []"

section \<open>What each method leaves unchanged\<close>

lemma add_up_dir_fields [simp]:
  "files (add_up_dir r fd s) = files s"
  "file_count (add_up_dir r fd s) = file_count s"
  "partition' (add_up_dir r fd s) = partition' s"
  "exclude_root_dirs (add_up_dir r fd s) = exclude_root_dirs s"
  "dirs (add_up_dir r fd s) = dirs s"
  "dir_count (add_up_dir r fd s) = dir_count s"
  by (simp_all add: add_up_dir_def split: option.split)

lemma process_files_fields [simp]:
  "dirs_holder (process_files fd s) = dirs_holder s"
  "file_count (process_files fd s) = file_count s"
  "partition' (process_files fd s) = partition' s"
  "exclude_root_dirs (process_files fd s) = exclude_root_dirs s"
  "dirs (process_files fd s) = dirs s"
  "dir_count (process_files fd s) = dir_count s"
  by (simp_all add: process_files_def Let_def)

lemma show_activity_fields [simp]:
  "dirs_holder (show_activity s) = dirs_holder s"
  "file_count (show_activity s) = file_count s"
  "files (show_activity s) = files s"
  "partition' (show_activity s) = partition' s"
  "exclude_root_dirs (show_activity s) = exclude_root_dirs s"
  "dirs (show_activity s) = dirs s"
  "dir_count (show_activity s) = dir_count s"
  by (simp_all add: show_activity_def Let_def)

lemma walk_file_fields [simp]:
  "partition' (walk_file r s e) = partition' s"
  "exclude_root_dirs (walk_file r s e) = exclude_root_dirs s"
  "dirs (walk_file r s e) = dirs s"
  "dir_count (walk_file r s e) = dir_count s"
  "file_count (walk_file r s e) = Suc (file_count s)"
  by (simp_all add: walk_file_def Let_def)

lemma walk_events_Nil [simp]: "walk_events s [] = s"
  by (simp add: walk_events_def)

lemma walk_events_Cons [simp]:
  "walk_events s (ev # evs) = walk_events (walk_file (fst ev) s (snd ev)) evs"
  by (simp add: walk_events_def)

lemma walk_events_append [simp]:
  "walk_events s (evs @ evs') = walk_events (walk_events s evs) evs'"
  by (simp add: walk_events_def)

lemma walk_events_fields [simp]:
  "partition' (walk_events s evs) = partition' s"
  "exclude_root_dirs (walk_events s evs) = exclude_root_dirs s"
  "dirs (walk_events s evs) = dirs s"
  "dir_count (walk_events s evs) = dir_count s"
  "file_count (walk_events s evs) = file_count s + length evs"
  by (induction evs arbitrary: s) simp_all

text \<open>The two nested loops process the stream of the yielded items.\<close>

lemma foldl_walk_file_events:
  "foldl (walk_file r) s fs = walk_events s (map (Pair r) fs)"
  by (induction fs arbitrary: s) simp_all

lemma foldl_walk_dir_events:
  "foldl walk_dir s items = walk_events s (stream_of items)"
proof (induction items arbitrary: s)
  case Nil
  show ?case by (simp add: stream_of_def)
next
  case (Cons item items)
  obtain r ds fs where item: "item = (r, ds, fs)"
    by (cases item)
  have "stream_of (item # items) = map (Pair r) fs @ stream_of items"
    by (simp add: stream_of_def item)
  then show ?case
    using Cons.IH by (simp add: walk_dir_def item foldl_walk_file_events)
qed

lemma walk_loop_events:
  "walk_loop ismount target tree s =
     walk_events s (stream_of (os_walk (filter_dirs ismount s) target tree))"
  by (simp add: walk_loop_def foldl_walk_dir_events)

lemma walk_filesystem_fields [simp]:
  "partition' (walk_filesystem ismount target tree s) = partition' s"
  "files (walk_filesystem ismount target tree s) = files (walk_loop ismount target tree s)"
  "file_count (walk_filesystem ismount target tree s) =
     file_count (walk_loop ismount target tree s)"
  by (simp_all add: walk_filesystem_def sort_dirs_def remove_activity_def Let_def
        walk_loop_events)

section \<open>Doubles with integer values\<close>

text \<open>
  Integers of magnitude up to \<open>2 ^ 53\<close> are doubles, conversion does not change the sign, and
  a converted value is a double: converting it again returns it.
\<close>

lemma bitlen_small: "\<bar>n\<bar> < 2 ^ 53 \<Longrightarrow> nat (bitlen \<bar>n\<bar> - 53) = 0"
  using bitlen_le_iff_power[of "\<bar>n\<bar>" 53] by simp

lemma py_float_small: "\<bar>n\<bar> < 2 ^ 53 \<Longrightarrow> py_float n = n"
  by (simp add: py_float_def Let_def bitlen_small mult_sgn_abs)

lemma bitlen_mant:
  assumes "2 ^ 52 \<le> q" "q < 2 ^ 53"
  shows "bitlen (q * 2 ^ e) = 53 + int e"
proof -
  have "bitlen q \<le> 53" using assms(2) by (simp add: bitlen_le_iff_power)
  moreover have "53 \<le> bitlen q" using assms(1) by (simp add: bitlen_ge_iff_power)
  ultimately have "bitlen q = 53" by linarith
  moreover have "0 < q" using assms by simp
  ultimately show ?thesis by simp
qed

lemma py_float_mant:
  assumes "2 ^ 52 \<le> q" "q < 2 ^ 53"
  shows "py_float (q * 2 ^ e) = q * 2 ^ e" "py_float (- (q * 2 ^ e)) = - (q * 2 ^ e)"
proof -
  have q: "0 < q" using assms by simp
  then have pos: "0 < q * 2 ^ e" by simp
  have bl: "nat (bitlen (q * 2 ^ e) - 53) = e"
    by (simp add: bitlen_mant[OF assms])
  show "py_float (q * 2 ^ e) = q * 2 ^ e"
    using pos by (simp add: py_float_def Let_def bl abs_of_pos)
  show "py_float (- (q * 2 ^ e)) = - (q * 2 ^ e)"
    using pos by (simp add: py_float_def Let_def bl abs_of_pos)
qed

lemma py_float_pow: "py_float (2 ^ 53 * 2 ^ e) = 2 ^ 53 * 2 ^ e"
  "py_float (- (2 ^ 53 * 2 ^ e)) = - (2 ^ 53 * 2 ^ e)"
proof -
  have eq: "(2::int) ^ 53 * 2 ^ e = 2 ^ 52 * 2 ^ Suc e" by simp
  show "py_float (2 ^ 53 * 2 ^ e) = 2 ^ 53 * 2 ^ e"
    unfolding eq by (rule py_float_mant(1)) simp_all
  show "py_float (- (2 ^ 53 * 2 ^ e)) = - (2 ^ 53 * 2 ^ e)"
    unfolding eq by (rule py_float_mant(2)) simp_all
qed

lemma py_float_exact: "\<bar>n\<bar> \<le> 2 ^ 53 \<Longrightarrow> py_float n = n"
proof (cases "\<bar>n\<bar> < 2 ^ 53")
  case True
  then show ?thesis by (rule py_float_small)
next
  case False
  assume "\<bar>n\<bar> \<le> 2 ^ 53"
  with False have "n = 2 ^ 53 * 2 ^ 0 \<or> n = - (2 ^ 53 * 2 ^ 0)" by auto
  then show ?thesis using py_float_pow[of 0] by auto
qed

lemma int_div_bounds:
  fixes p :: int
  assumes "0 < p" "m * p \<le> a" "a < k * p"
  shows "m \<le> a div p" "a div p < k"
proof -
  have "m = (m * p) div p" using assms(1) by simp
  also have "\<dots> \<le> a div p" using assms(2) assms(1) by (rule zdiv_mono1)
  finally show "m \<le> a div p" .
  have "a div p * p + a mod p = a" by simp
  moreover have "0 \<le> a mod p" using assms(1) by simp
  ultimately have "a div p * p \<le> a" by linarith
  with assms(3) have "a div p * p < k * p" by linarith
  then show "a div p < k"
    using assms(1) by (simp add: mult_less_cancel_right)
qed

lemma py_float_idem: "py_float (py_float n) = py_float n"
proof (cases "\<bar>n\<bar> < 2 ^ 53")
  case True
  then show ?thesis by (simp add: py_float_small)
next
  case False
  define a where "a = \<bar>n\<bar>"
  define e where "e = nat (bitlen a - 53)"
  define q where "q = a div 2 ^ e"
  define r where "r = a mod 2 ^ e"
  define q' where "q' = (if 2 * r > 2 ^ e \<or> (2 * r = 2 ^ e \<and> odd q) then q + 1 else q)"
  have a: "2 ^ 53 \<le> a" using False by (simp add: a_def)
  have "(0::int) < 2 ^ 53" by simp
  with a have apos: "0 < a" by linarith
  have bl: "54 \<le> bitlen a"
    using a bitlen_ge_iff_power[of 54 a] by simp
  then have e: "int e = bitlen a - 53" by (simp add: e_def)
  have "2 ^ nat (bitlen a - 1) \<le> a" "a < 2 ^ nat (bitlen a)"
    using bitlen_bounds[OF apos] by auto
  moreover have "nat (bitlen a - 1) = 52 + e" "nat (bitlen a) = 53 + e"
    using e bl by auto
  ultimately have ab: "2 ^ 52 * 2 ^ e \<le> a" "a < 2 ^ 53 * 2 ^ e"
    by (simp_all add: power_add)
  have ql: "2 ^ 52 \<le> q" and qu: "q < 2 ^ 53"
    unfolding q_def using int_div_bounds[OF _ ab] by simp_all
  have pf: "py_float n = sgn n * q' * 2 ^ e"
    by (simp add: py_float_def Let_def a_def e_def q_def r_def q'_def)
  have rep: "py_float (q' * 2 ^ e) = q' * 2 ^ e \<and> py_float (- (q' * 2 ^ e)) = - (q' * 2 ^ e)"
  proof (cases "q' < 2 ^ 53")
    case True
    moreover have "2 ^ 52 \<le> q'" using ql by (simp add: q'_def)
    ultimately show ?thesis using py_float_mant[of q' e] by simp
  next
    case False
    then have "q' = 2 ^ 53" using qu by (simp add: q'_def split: if_splits)
    then show ?thesis using py_float_pow[of e] by simp
  qed
  have "n \<noteq> 0" using False by auto
  then consider "sgn n = 1" | "sgn n = - 1" by (cases "0 < n") auto
  then show ?thesis
  proof cases
    case 1
    then have "py_float n = q' * 2 ^ e" by (simp add: pf)
    then show ?thesis using rep by simp
  next
    case 2
    then have "py_float n = - (q' * 2 ^ e)" by (simp add: pf)
    then show ?thesis using rep by simp
  qed
qed

lemma py_float_nonneg: "0 \<le> n \<Longrightarrow> 0 \<le> py_float n"
  by (simp add: py_float_def Let_def sgn_if pos_imp_zdiv_nonneg_iff)

section \<open>Stable descending sort\<close>

lemma sorted_desc_conv: "sorted_desc key xs = sorted (map (\<lambda>x. - key x) xs)"
  by (simp add: sorted_desc_def sorted_map)

lemma sorted_desc_sorted_reverse: "sorted_desc key (sorted_reverse key xs)"
  by (simp add: sorted_desc_conv sorted_reverse_def)

lemma sorted_reverse_id: "sorted_desc key xs \<Longrightarrow> sorted_reverse key xs = xs"
  by (simp add: sorted_desc_conv sorted_reverse_def sort_key_id_if_sorted)

lemma sorted_desc_take: "sorted_desc key xs \<Longrightarrow> sorted_desc key (take n xs)"
  by (simp add: sorted_desc_def sorted_wrt_take)

lemma sorted_desc_Cons:
  "sorted_desc key (x # xs) = ((\<forall>y\<in>set xs. key y \<le> key x) \<and> sorted_desc key xs)"
  by (simp add: sorted_desc_def)

lemma length_sorted_reverse [simp]: "length (sorted_reverse key xs) = length xs"
  by (simp add: sorted_reverse_def)

lemma set_sorted_reverse [simp]: "set (sorted_reverse key xs) = set xs"
  by (simp add: sorted_reverse_def)

text \<open>Where \<open>insort_key\<close> puts an element in a list that is split at a pivot.\<close>

lemma insort_key_before:
  "f y \<le> f x \<Longrightarrow> insort_key f y (as @ x # bs) = insort_key f y as @ x # bs"
  by (induction as) auto

lemma insort_key_after:
  "f x < f y \<Longrightarrow> \<forall>a\<in>set as. f a \<le> f x \<Longrightarrow>
   insort_key f y (as @ x # bs) = as @ x # insort_key f y bs"
  by (induction as) auto

text \<open>
  Sorting a list with one more element at its end: the new element goes behind every
  element whose key is at most its own, also behind those with an equal key.
\<close>

lemma sort_key_snoc:
  "sort_key f (xs @ [x]) =
     filter (\<lambda>y. f y \<le> f x) (sort_key f xs) @ x # filter (\<lambda>y. f x < f y) (sort_key f xs)"
proof (induction xs)
  case Nil
  show ?case by simp
next
  case (Cons y ys)
  let ?S = "sort_key f ys"
  have srt: "sorted (map f ?S)" by simp
  show ?case
  proof (cases "f y \<le> f x")
    case True
    have "filter (\<lambda>z. f z \<le> f x) (insort_key f y ?S) = insort_key f y (filter (\<lambda>z. f z \<le> f x) ?S)"
      using srt True by (simp add: filter_insort)
    moreover have "filter (\<lambda>z. f x < f z) (insort_key f y ?S) = filter (\<lambda>z. f x < f z) ?S"
      using True by (simp add: filter_insort_triv)
    ultimately show ?thesis
      using Cons.IH True by (simp add: insort_key_before)
  next
    case False
    then have lt: "f x < f y" by simp
    have "filter (\<lambda>z. f z \<le> f x) (insort_key f y ?S) = filter (\<lambda>z. f z \<le> f x) ?S"
      using False by (simp add: filter_insort_triv)
    moreover have "filter (\<lambda>z. f x < f z) (insort_key f y ?S) = insort_key f y (filter (\<lambda>z. f x < f z) ?S)"
      using srt lt by (simp add: filter_insort)
    ultimately show ?thesis
      using Cons.IH lt by (simp add: insort_key_after)
  qed
qed

lemma sorted_reverse_snoc:
  "sorted_reverse key (xs @ [x]) =
     filter (\<lambda>y. key x \<le> key y) (sorted_reverse key xs) @
     x # filter (\<lambda>y. key y < key x) (sorted_reverse key xs)"
  by (simp add: sorted_reverse_def sort_key_snoc)

text \<open>Inserting into the first \<open>n\<close> elements, or into the whole list: the same first \<open>n\<close>.\<close>

lemma take_insert_take:
  "sorted_desc key xs \<Longrightarrow>
   take n (filter (\<lambda>y. key x \<le> key y) (take n xs) @ x # filter (\<lambda>y. key y < key x) (take n xs)) =
   take n (filter (\<lambda>y. key x \<le> key y) xs @ x # filter (\<lambda>y. key y < key x) xs)"
proof (induction xs arbitrary: n)
  case Nil
  show ?case by simp
next
  case (Cons y ys)
  show ?case
  proof (cases n)
    case 0
    then show ?thesis by simp
  next
    case (Suc m)
    have srt: "sorted_desc key ys" and le: "\<forall>z\<in>set ys. key z \<le> key y"
      using Cons.prems by (simp_all add: sorted_desc_Cons)
    show ?thesis
    proof (cases "key x \<le> key y")
      case True
      then show ?thesis using Cons.IH[OF srt, of m] Suc by simp
    next
      case False
      then have all: "\<forall>z\<in>set ys. key z < key x" using le by auto
      then have "\<forall>z\<in>set (take m ys). key z < key x" by (auto dest: in_set_takeD)
      with all have "filter (\<lambda>z. key x \<le> key z) ys = []" "filter (\<lambda>z. key z < key x) ys = ys"
        "filter (\<lambda>z. key x \<le> key z) (take m ys) = []"
        "filter (\<lambda>z. key z < key x) (take m ys) = take m ys"
        by (auto simp: filter_empty_conv filter_id_conv)
      then show ?thesis using False Suc by (cases m) simp_all
    qed
  qed
qed

section \<open>The list of the largest files\<close>

lemma files_process_files_eq:
  "files (process_files fd s) =
     (if 21 \<le> length (files s) + 1 then butlast (sorted_reverse fsize (files s @ [fd]))
      else sorted_reverse fsize (files s @ [fd]))"
  by (simp add: process_files_def sort_files_list_def Let_def)

lemma files_process_files_cong:
  "files s = files t \<Longrightarrow> files (process_files fd s) = files (process_files fd t)"
  by (simp add: files_process_files_eq)

lemma files_process_files:
  assumes "length (files s) \<le> 20"
  shows "files (process_files fd s) = take 20 (sorted_reverse fsize (files s @ [fd]))"
proof (cases "length (files s) = 20")
  case True
  then have "length (sorted_reverse fsize (files s @ [fd])) = 21" by simp
  then have "butlast (sorted_reverse fsize (files s @ [fd])) =
      take 20 (sorted_reverse fsize (files s @ [fd]))"
    by (simp add: butlast_conv_take)
  then show ?thesis using True by (simp add: files_process_files_eq)
next
  case False
  with assms have "length (files s) < 20" by simp
  then show ?thesis by (simp add: files_process_files_eq)
qed

lemma files_foldl_process_files_cong:
  "files s = files t \<Longrightarrow>
   files (foldl (\<lambda>s fd. process_files fd s) s fds) = files (foldl (\<lambda>s fd. process_files fd s) t fds)"
proof (induction fds arbitrary: s t)
  case Nil
  then show ?case by simp
next
  case (Cons fd fds)
  show ?case
    using Cons.IH[OF files_process_files_cong[OF Cons.prems]] by simp
qed

text \<open>After any number of insertions the list holds the first twenty of the stable sort.\<close>

lemma files_foldl_process_files:
  "files s = [] \<Longrightarrow>
   files (foldl (\<lambda>s fd. process_files fd s) s fds) = take 20 (sorted_reverse fsize fds)"
proof (induction fds rule: rev_induct)
  case Nil
  then show ?case by (simp add: sorted_reverse_def)
next
  case (snoc fd fds)
  let ?S = "foldl (\<lambda>s fd. process_files fd s) s fds"
  let ?R = "sorted_reverse fsize fds"
  have fS: "files ?S = take 20 ?R" using snoc by simp
  then have len: "length (files ?S) \<le> 20" by simp
  have srt: "sorted_desc fsize (take 20 ?R)"
    by (rule sorted_desc_take) (rule sorted_desc_sorted_reverse)
  have "files (process_files fd ?S) = take 20 (sorted_reverse fsize (take 20 ?R @ [fd]))"
    using files_process_files[OF len] fS by simp
  also have "\<dots> = take 20 (filter (\<lambda>y. fsize fd \<le> fsize y) (take 20 ?R) @
      fd # filter (\<lambda>y. fsize y < fsize fd) (take 20 ?R))"
    by (simp only: sorted_reverse_snoc sorted_reverse_id[OF srt])
  also have "\<dots> = take 20 (filter (\<lambda>y. fsize fd \<le> fsize y) ?R @
      fd # filter (\<lambda>y. fsize y < fsize fd) ?R)"
    by (rule take_insert_take) (rule sorted_desc_sorted_reverse)
  also have "\<dots> = take 20 (sorted_reverse fsize (fds @ [fd]))"
    by (simp only: sorted_reverse_snoc)
  finally show ?case by simp
qed

lemma files_walk_file:
  "files (walk_file r s e) = files (process_files (record_of (r, e)) s)"
  by (simp add: walk_file_def Let_def record_of_def files_process_files_eq)

lemma files_walk_events_foldl:
  "files (walk_events s evs) = files (foldl (\<lambda>s fd. process_files fd s) s (map record_of evs))"
proof (induction evs arbitrary: s)
  case Nil
  show ?case by simp
next
  case (Cons ev evs)
  have "files (walk_file (fst ev) s (snd ev)) = files (process_files (record_of ev) s)"
    using files_walk_file[of "fst ev" s "snd ev"] by simp
  then show ?case
    using Cons.IH[of "walk_file (fst ev) s (snd ev)"]
      files_foldl_process_files_cong[of "walk_file (fst ev) s (snd ev)" "process_files (record_of ev) s"]
    by simp
qed

lemma files_walk_events:
  "files s = [] \<Longrightarrow> files (walk_events s evs) = take 20 (sorted_reverse fsize (map record_of evs))"
  by (simp add: files_walk_events_foldl files_foldl_process_files)

lemma files_start_state [simp]: "files (start_state st) = []"
  by (simp add: start_state_def get_partition_usage_def init_state_def)

lemma files_init_state [simp]: "files init_state = []"
  by (simp add: init_state_def)

lemma sorted_desc_split:
  "sorted_desc key xs \<Longrightarrow>
   xs = filter (\<lambda>y. key x \<le> key y) xs @ filter (\<lambda>y. key y < key x) xs"
proof (induction xs)
  case Nil
  show ?case by simp
next
  case (Cons y ys)
  have srt: "sorted_desc key ys" and le: "\<forall>z\<in>set ys. key z \<le> key y"
    using Cons.prems by (simp_all add: sorted_desc_Cons)
  show ?case
  proof (cases "key x \<le> key y")
    case True
    then show ?thesis using Cons.IH[OF srt] by simp
  next
    case False
    then have "\<forall>z\<in>set ys. key z < key x" using le by auto
    then have "filter (\<lambda>z. key x \<le> key z) ys = []" "filter (\<lambda>z. key z < key x) ys = ys"
      by (auto simp: filter_empty_conv filter_id_conv)
    then show ?thesis using False by simp
  qed
qed

lemma sorted_reverse_distinct:
  assumes "distinct (map f xs)"
  shows "sorted_reverse f xs = rev (sort_key f xs)"
proof -
  let ?g = "\<lambda>x. - f x"
  let ?A = "sort_key ?g xs" and ?B = "rev (sort_key f xs)"
  have inj: "inj_on f (set xs)" and dx: "distinct xs"
    using assms by (simp_all add: distinct_map)
  then have injg: "inj_on ?g (set xs)" by (simp add: inj_on_def)
  have "sorted (map ?g ?A)" by simp
  moreover have "distinct (map ?g ?A)" using injg dx by (simp add: distinct_map)
  moreover have "sorted (map ?g ?B)"
  proof -
    have "sorted (map f (sort_key f xs))" by simp
    then have "sorted_wrt (\<lambda>a b. f a \<le> f b) (sort_key f xs)"
      by (simp only: sorted_map)
    then have "sorted_wrt (\<lambda>a b. - f b \<le> - f a) (sort_key f xs)"
      by simp
    then have "sorted_wrt (\<lambda>a b. - f a \<le> - f b) (rev (sort_key f xs))"
      by (simp only: sorted_wrt_rev)
    then show ?thesis by (simp only: sorted_map)
  qed
  moreover have "distinct (map ?g ?B)" using injg dx by (simp add: distinct_map)
  moreover have "set (map ?g ?A) = set (map ?g ?B)" by simp
  ultimately have "map ?g ?A = map ?g ?B" by (rule sorted_distinct_set_unique)
  moreover have "inj_on ?g (set ?A \<union> set ?B)" using injg by simp
  ultimately have "?A = ?B" by (simp add: inj_on_map_eq_map)
  then show ?thesis by (simp add: sorted_reverse_def)
qed

lemma os_walk_single:
  "os_walk flt target (FsDir fs []) = [(target, flt target [], fs)]"
  by (simp add: Let_def)

lemma files_walk_filesystem:
  "files s = [] \<Longrightarrow>
   files (walk_filesystem ismount target tree s) =
     take 20 (sorted_reverse fsize
       (map record_of (stream_of (os_walk (filter_dirs ismount s) target tree))))"
  by (simp add: walk_loop_events files_walk_events)

section \<open>The directory totals\<close>

lemma dirs_holder_walk_file:
  "dirs_holder (walk_file r s e) =
     (case map_of (dirs_holder s) r of
        Some v \<Rightarrow> AList.update r (py_add v (fsize (record_of (r, e)))) (dirs_holder s)
      | None \<Rightarrow> AList.update r (fsize (record_of (r, e))) (dirs_holder s))"
  by (simp add: walk_file_def add_up_dir_def Let_def record_of_def split: option.split)

lemma keys_walk_file:
  "fst ` set (dirs_holder (walk_file r s e)) = insert r (fst ` set (dirs_holder s))"
  by (simp add: dirs_holder_walk_file dom_update split: option.split)

lemma distinct_walk_file:
  "distinct (map fst (dirs_holder s)) \<Longrightarrow> distinct (map fst (dirs_holder (walk_file r s e)))"
  by (simp add: dirs_holder_walk_file distinct_update split: option.split)

lemma keys_walk_events:
  "fst ` set (dirs_holder (walk_events s evs)) = fst ` set (dirs_holder s) \<union> fst ` set evs"
  by (induction evs arbitrary: s) (auto simp: keys_walk_file)

lemma distinct_walk_events:
  "distinct (map fst (dirs_holder s)) \<Longrightarrow> distinct (map fst (dirs_holder (walk_events s evs)))"
  by (induction evs arbitrary: s) (simp_all add: distinct_walk_file)

lemma length_dirs_holder_walk_events:
  assumes "dirs_holder s = []"
  shows "length (dirs_holder (walk_events s evs)) = card (fst ` set evs)"
proof -
  have "distinct (map fst (dirs_holder (walk_events s evs)))"
    using assms by (simp add: distinct_walk_events)
  then have "card (set (map fst (dirs_holder (walk_events s evs)))) =
      length (map fst (dirs_holder (walk_events s evs)))"
    by (rule distinct_card)
  then show ?thesis using assms by (simp add: keys_walk_events)
qed

lemma start_state_fields [simp]:
  "dirs_holder (start_state st) = []"
  "dirs (start_state st) = []"
  "file_count (start_state st) = 0"
  "exclude_root_dirs (start_state st) = [''dev'', ''proc'', ''selinux'']"
  by (simp_all add: start_state_def get_partition_usage_def init_state_def)

text \<open>What \<^verbatim>\<open>_sort_dirs\<close> makes of the state that the loops leave.\<close>

lemma sort_dirs_fields:
  "dirs s = [] \<Longrightarrow> dir_count (sort_dirs s) = length (dirs_holder s)"
  "dirs s = [] \<Longrightarrow> dirs (sort_dirs s) =
     take 10 (map (\<lambda>(k, v). \<lparr>dir_name = k, dir_size = v\<rparr>) (sorted_reverse snd (dirs_holder s)))"
  by (simp_all add: sort_dirs_def Let_def)

lemma walk_filesystem_dirs:
  assumes "dirs s = []"
  shows "dir_count (walk_filesystem ismount target tree s) =
           length (dirs_holder (walk_loop ismount target tree s))"
    and "dirs (walk_filesystem ismount target tree s) =
           take 10 (map (\<lambda>(k, v). \<lparr>dir_name = k, dir_size = v\<rparr>)
             (sorted_reverse snd (dirs_holder (walk_loop ismount target tree s))))"
proof -
  have "dirs (remove_activity (walk_loop ismount target tree s)) = []"
    using assms by (simp add: remove_activity_def walk_loop_events)
  moreover have "dirs_holder (remove_activity (walk_loop ismount target tree s)) =
      dirs_holder (walk_loop ismount target tree s)"
    by (simp add: remove_activity_def)
  ultimately show
    "dir_count (walk_filesystem ismount target tree s) =
       length (dirs_holder (walk_loop ismount target tree s))"
    "dirs (walk_filesystem ismount target tree s) =
       take 10 (map (\<lambda>(k, v). \<lparr>dir_name = k, dir_size = v\<rparr>)
         (sorted_reverse snd (dirs_holder (walk_loop ismount target tree s))))"
    by (simp_all add: walk_filesystem_def sort_dirs_fields)
qed

lemma sorted_desc_map_dir_data:
  "sorted_desc snd xs \<Longrightarrow>
   sorted_desc dir_size (map (\<lambda>(k, v). \<lparr>dir_name = k, dir_size = v\<rparr>) xs)"
  by (simp add: sorted_desc_def sorted_wrt_map case_prod_unfold)

section \<open>Sums of the directory totals\<close>

lemma sum_update_Some:
  "map_of al k = Some v \<Longrightarrow>
   sum_list (map snd (AList.update k w al)) = sum_list (map snd al) - v + (w::int)"
  by (induction al) (auto split: if_splits)

lemma sum_update_None:
  "map_of al k = None \<Longrightarrow>
   sum_list (map snd (AList.update k w al)) = sum_list (map snd al) + (w::int)"
  by (induction al) (auto split: if_splits)

lemma values_update:
  "\<forall>v\<in>snd ` set al. P v \<Longrightarrow> P w \<Longrightarrow> \<forall>v\<in>snd ` set (AList.update k w al). P v"
  by (induction al) auto

lemma elem_le_sum_list:
  fixes xs :: "int list"
  shows "\<forall>y\<in>set xs. 0 \<le> y \<Longrightarrow> x \<in> set xs \<Longrightarrow> x \<le> sum_list xs"
proof (induction xs)
  case Nil
  then show ?case by simp
next
  case (Cons y ys)
  have "0 \<le> sum_list ys" using Cons.prems(1) by (simp add: sum_list_nonneg)
  then show ?case using Cons by auto
qed

lemma map_of_value_le_sum:
  assumes "\<forall>v\<in>snd ` set al. (0::int) \<le> v" "map_of al k = Some v"
  shows "v \<le> sum_list (map snd al)"
proof -
  have "v \<in> set (map snd al)"
    using map_of_SomeD[OF assms(2)] by force
  moreover have "\<forall>y\<in>set (map snd al). 0 \<le> y" using assms(1) by simp
  ultimately show ?thesis by (rule elem_le_sum_list[rotated])
qed

text \<open>The size that a stream entry contributes, and the size of its record.\<close>

lemma stat_sizes_Cons:
  "stat_sizes (ev # evs) =
     (case snd (snd ev) of None \<Rightarrow> [] | Some r \<Rightarrow> [st_size r]) @ stat_sizes evs"
  by (simp add: stat_sizes_def)

lemma fsize_record_of:
  "fsize (record_of ev) = (case snd (snd ev) of None \<Rightarrow> 0 | Some r \<Rightarrow> py_float (st_size r))"
  by (simp add: record_of_def get_file_data_def split: option.split)

text \<open>One file entry, while all sums stay within the integers that doubles represent.\<close>

lemma walk_file_sum:
  assumes nonneg: "\<forall>v\<in>snd ` set (dirs_holder s). 0 \<le> v"
    and z: "0 \<le> z" "sum_list (map snd (dirs_holder s)) + z \<le> 2 ^ 53"
    and rec: "fsize (record_of (r, e)) = py_float z"
  shows "sum_list (map snd (dirs_holder (walk_file r s e))) = sum_list (map snd (dirs_holder s)) + z"
    and "\<forall>v\<in>snd ` set (dirs_holder (walk_file r s e)). 0 \<le> v"
proof -
  let ?S = "sum_list (map snd (dirs_holder s))"
  have S0: "0 \<le> ?S" using nonneg by (intro sum_list_nonneg) auto
  have zex: "py_float z = z"
    using z S0 by (intro py_float_exact) simp
  have "sum_list (map snd (dirs_holder (walk_file r s e))) = ?S + z \<and>
      (\<forall>v\<in>snd ` set (dirs_holder (walk_file r s e)). 0 \<le> v)"
  proof (cases "map_of (dirs_holder s) r")
    case None
    then have dh: "dirs_holder (walk_file r s e) = AList.update r z (dirs_holder s)"
      by (simp add: dirs_holder_walk_file rec zex)
    have "sum_list (map snd (AList.update r z (dirs_holder s))) = ?S + z"
      by (rule sum_update_None[OF None])
    moreover have "\<forall>v\<in>snd ` set (AList.update r z (dirs_holder s)). 0 \<le> v"
      by (rule values_update[where P = "\<lambda>v. 0 \<le> v", OF nonneg z(1)])
    ultimately show ?thesis unfolding dh by blast
  next
    case (Some v)
    have v0: "0 \<le> v" using nonneg map_of_SomeD[OF Some] by force
    have "v \<le> ?S" by (rule map_of_value_le_sum[OF nonneg Some])
    then have "\<bar>v + z\<bar> \<le> 2 ^ 53" using v0 z by simp
    then have add: "py_add v z = v + z" by (simp add: py_add_def py_float_exact)
    have dh: "dirs_holder (walk_file r s e) = AList.update r (v + z) (dirs_holder s)"
      by (simp add: dirs_holder_walk_file rec zex Some add)
    have "0 \<le> v + z" using v0 z(1) by simp
    then have "\<forall>v\<in>snd ` set (AList.update r (v + z) (dirs_holder s)). 0 \<le> v"
      by (rule values_update[where P = "\<lambda>v. 0 \<le> v", OF nonneg])
    moreover have "sum_list (map snd (AList.update r (v + z) (dirs_holder s))) = ?S + z"
      using sum_update_Some[OF Some, of "v + z"] by simp
    ultimately show ?thesis unfolding dh by blast
  qed
  then show "sum_list (map snd (dirs_holder (walk_file r s e))) = ?S + z"
    and "\<forall>v\<in>snd ` set (dirs_holder (walk_file r s e)). 0 \<le> v"
    by blast+
qed

lemma walk_events_sum:
  assumes "\<forall>v\<in>snd ` set (dirs_holder s). 0 \<le> v"
    and "\<forall>x\<in>set (stat_sizes evs). 0 \<le> x"
    and "sum_list (map snd (dirs_holder s)) + sum_list (stat_sizes evs) \<le> 2 ^ 53"
  shows "sum_list (map snd (dirs_holder (walk_events s evs))) =
           sum_list (map snd (dirs_holder s)) + sum_list (stat_sizes evs)"
  using assms
proof (induction evs arbitrary: s)
  case Nil
  show ?case by (simp add: stat_sizes_def)
next
  case (Cons ev evs)
  define z where "z = (case snd (snd ev) of None \<Rightarrow> 0 | Some r \<Rightarrow> st_size r)"
  have sz: "sum_list (stat_sizes (ev # evs)) = z + sum_list (stat_sizes evs)"
    by (simp add: stat_sizes_Cons z_def split: option.split)
  have rest0: "\<forall>x\<in>set (stat_sizes evs). 0 \<le> x" and z0: "0 \<le> z"
    using Cons.prems(2) by (auto simp: stat_sizes_Cons z_def split: option.splits)
  have "0 \<le> sum_list (stat_sizes evs)" using rest0 by (simp add: sum_list_nonneg)
  then have zb: "sum_list (map snd (dirs_holder s)) + z \<le> 2 ^ 53"
    using Cons.prems(3) sz by simp
  have rec: "fsize (record_of (fst ev, snd ev)) = py_float z"
    by (simp add: fsize_record_of z_def py_float_small split: option.split)
  note step = walk_file_sum[OF Cons.prems(1) z0 zb rec]
  have "sum_list (map snd (dirs_holder (walk_events (walk_file (fst ev) s (snd ev)) evs))) =
      sum_list (map snd (dirs_holder (walk_file (fst ev) s (snd ev)))) + sum_list (stat_sizes evs)"
    using Cons.prems(3) sz step(1) by (intro Cons.IH step(2) rest0) simp
  then show ?case using step(1) sz by simp
qed

lemma record_sizes_exact:
  assumes "\<forall>x\<in>set (stat_sizes evs). 0 \<le> x" "sum_list (stat_sizes evs) \<le> 2 ^ 53"
  shows "sum_list (map (\<lambda>ev. fsize (record_of ev)) evs) = sum_list (stat_sizes evs)"
  using assms
proof (induction evs)
  case Nil
  show ?case by (simp add: stat_sizes_def)
next
  case (Cons ev evs)
  define z where "z = (case snd (snd ev) of None \<Rightarrow> 0 | Some r \<Rightarrow> st_size r)"
  have sz: "sum_list (stat_sizes (ev # evs)) = z + sum_list (stat_sizes evs)"
    by (simp add: stat_sizes_Cons z_def split: option.split)
  have rest0: "\<forall>x\<in>set (stat_sizes evs). 0 \<le> x" and z0: "0 \<le> z"
    using Cons.prems(1) by (auto simp: stat_sizes_Cons z_def split: option.splits)
  have r0: "0 \<le> sum_list (stat_sizes evs)" using rest0 by (simp add: sum_list_nonneg)
  then have "\<bar>z\<bar> \<le> 2 ^ 53" using Cons.prems(2) sz z0 by simp
  then have "py_float z = z" by (rule py_float_exact)
  moreover have "fsize (record_of ev) = py_float z"
    by (simp add: fsize_record_of z_def py_float_small split: option.split)
  moreover have "sum_list (map (\<lambda>ev. fsize (record_of ev)) evs) = sum_list (stat_sizes evs)"
    using Cons.prems(2) sz z0 by (intro Cons.IH rest0) simp
  ultimately show ?case using sz by simp
qed

section \<open>Invariants of the walk\<close>

lemma stat_sizes_member:
  "ev \<in> set evs \<Longrightarrow> snd (snd ev) = Some r \<Longrightarrow> st_size r \<in> set (stat_sizes evs)"
  by (induction evs) (auto simp: stat_sizes_Cons)

lemma fsize_record_nonneg:
  assumes "\<forall>x\<in>set (stat_sizes evs). 0 \<le> x" "ev \<in> set evs"
  shows "0 \<le> fsize (record_of ev)"
proof (cases "snd (snd ev)")
  case None
  then show ?thesis by (simp add: fsize_record_of)
next
  case (Some r)
  then have "0 \<le> st_size r" using assms stat_sizes_member by blast
  then show ?thesis using Some by (simp add: fsize_record_of py_float_nonneg)
qed

lemma files_walk_events_nonneg:
  assumes "files s = []" "\<forall>x\<in>set (stat_sizes evs). 0 \<le> x"
  shows "\<forall>f\<in>set (files (walk_events s evs)). 0 \<le> fsize f"
proof
  fix f assume "f \<in> set (files (walk_events s evs))"
  then have "f \<in> set (take 20 (sorted_reverse fsize (map record_of evs)))"
    using assms(1) by (simp add: files_walk_events)
  then have "f \<in> set (sorted_reverse fsize (map record_of evs))"
    by (rule in_set_takeD)
  then obtain ev where "ev \<in> set evs" "f = record_of ev" by auto
  then show "0 \<le> fsize f" using fsize_record_nonneg[OF assms(2)] by simp
qed

lemma files_walk_events_bounds:
  assumes "files s = []"
  shows "length (files (walk_events s evs)) \<le> 20"
    and "sorted_desc fsize (files (walk_events s evs))"
  using assms
  by (simp_all add: files_walk_events sorted_desc_take sorted_desc_sorted_reverse)

text \<open>Every directory total is a double.\<close>

lemma py_float_0 [simp]: "py_float 0 = 0"
  by (simp add: py_float_small)

lemma fsize_record_double: "py_float (fsize (record_of ev)) = fsize (record_of ev)"
  by (simp add: fsize_record_of py_float_idem split: option.split)

lemma dirs_holder_walk_file_double:
  assumes "\<forall>v\<in>snd ` set (dirs_holder s). py_float v = v"
  shows "\<forall>v\<in>snd ` set (dirs_holder (walk_file r s e)). py_float v = v"
proof (cases "map_of (dirs_holder s) r")
  case None
  then have "dirs_holder (walk_file r s e) =
      AList.update r (fsize (record_of (r, e))) (dirs_holder s)"
    by (simp add: dirs_holder_walk_file)
  then show ?thesis
    using values_update[where P = "\<lambda>v. py_float v = v", OF assms fsize_record_double] by simp
next
  case (Some v)
  then have "dirs_holder (walk_file r s e) =
      AList.update r (py_add v (fsize (record_of (r, e)))) (dirs_holder s)"
    by (simp add: dirs_holder_walk_file)
  moreover have "py_float (py_add v (fsize (record_of (r, e)))) = py_add v (fsize (record_of (r, e)))"
    by (simp add: py_add_def py_float_idem)
  ultimately show ?thesis
    using values_update[where P = "\<lambda>v. py_float v = v", OF assms] by simp
qed

lemma dirs_holder_walk_events_double:
  "\<forall>v\<in>snd ` set (dirs_holder s). py_float v = v \<Longrightarrow>
   \<forall>v\<in>snd ` set (dirs_holder (walk_events s evs)). py_float v = v"
proof (induction evs arbitrary: s)
  case Nil
  then show ?case by simp
next
  case (Cons ev evs)
  show ?case
    using Cons.IH[OF dirs_holder_walk_file_double[OF Cons.prems]] by simp
qed

text \<open>A record of size 0 goes to the end of a list of records with non-negative sizes.\<close>

lemma sorted_reverse_snoc_zero:
  assumes "sorted_desc fsize fs" "\<forall>f\<in>set fs. 0 \<le> fsize f" "fsize fd = 0"
  shows "sorted_reverse fsize (fs @ [fd]) = fs @ [fd]"
proof -
  have "filter (\<lambda>y. fsize fd \<le> fsize y) fs = fs" "filter (\<lambda>y. fsize y < fsize fd) fs = []"
    using assms(2,3) by (auto simp: filter_id_conv filter_empty_conv)
  then show ?thesis
    by (simp add: sorted_reverse_snoc sorted_reverse_id[OF assms(1)])
qed

section \<open>Which directories the walk enters\<close>

lemma filter_dirs_subset: "set (filter_dirs ismount s r ds) \<subseteq> set ds"
  by (auto simp: filter_dirs_def Let_def)

lemma filter_dirs_not_mount:
  "d \<in> set (filter_dirs ismount s r ds) \<Longrightarrow> \<not> ismount (path_join r d)"
  by (auto simp: filter_dirs_def Let_def split: if_splits)

lemma filter_dirs_not_excluded:
  "d \<in> set (filter_dirs ismount s ''/'' ds) \<Longrightarrow> d \<notin> set (exclude_root_dirs s)"
  by (auto simp: filter_dirs_def Let_def)

lemma filter_dirs_mounts_removed:
  "filter_dirs ismount s r (filter (\<lambda>d. \<not> ismount (path_join r d)) ds) = filter_dirs ismount s r ds"
  by (simp add: filter_dirs_def Let_def)

lemma filter_dirs_excluded_removed:
  "filter_dirs ismount s ''/'' (filter (\<lambda>d. d \<notin> set (exclude_root_dirs s)) ds) =
   filter_dirs ismount s ''/'' ds"
  by (simp add: filter_dirs_def Let_def conj_commute)

lemma map_fst_filter_key:
  "map fst (filter (\<lambda>(d, t). P d) subs) = filter P (map fst subs)"
  by (induction subs) auto

lemma map_of_filter_key:
  "P d \<Longrightarrow> map_of (filter (\<lambda>(d, t). P d) subs) d = map_of subs d"
  by (induction subs) auto

lemma map_of_map_filter_key:
  "P d \<Longrightarrow>
   map_of (map (\<lambda>(d, t). (d, f d t)) (filter (\<lambda>(d, t). P d) subs)) d =
     map_option (f d) (map_of subs d)"
  by (induction subs) auto

text \<open>The subtrees under mount points do not matter to the walk.\<close>

lemma os_walk_prune_mounts:
  "os_walk (filter_dirs ismount s) topdir tree =
   os_walk (filter_dirs ismount s) topdir (prune_mounts ismount topdir tree)"
proof (induction ismount topdir tree rule: prune_mounts.induct)
  case (1 ismount topdir)
  show ?case by simp
next
  case (2 ismount topdir fs subs)
  let ?keep = "\<lambda>d. \<not> ismount (path_join topdir d)"
  let ?subs' = "map (\<lambda>(d, t). (d, prune_mounts ismount (path_join topdir d) t))
      (filter (\<lambda>(d, t). ?keep d) subs)"
  let ?ds = "filter_dirs ismount s topdir (map fst subs)"
  have "map fst ?subs' = map fst (filter (\<lambda>(d, t). ?keep d) subs)"
    by (simp add: case_prod_unfold)
  also have "\<dots> = filter ?keep (map fst subs)"
    by (rule map_fst_filter_key)
  finally have ds: "filter_dirs ismount s topdir (map fst ?subs') = ?ds"
    by (simp only: filter_dirs_mounts_removed)
  have sub: "(case map_of subs d of None \<Rightarrow> []
        | Some t \<Rightarrow> os_walk (filter_dirs ismount s) (path_join topdir d) t) =
      (case map_of ?subs' d of None \<Rightarrow> []
        | Some t \<Rightarrow> os_walk (filter_dirs ismount s) (path_join topdir d) t)"
    if d: "d \<in> set ?ds" for d
  proof -
    have keep: "?keep d" using d by (rule filter_dirs_not_mount)
    have look: "map_of ?subs' d =
        map_option (prune_mounts ismount (path_join topdir d)) (map_of subs d)"
      using keep by (rule map_of_map_filter_key[where P = ?keep])
    show ?thesis
    proof (cases "map_of subs d")
      case None
      then show ?thesis using look by simp
    next
      case (Some t)
      then have "(d, t) \<in> set (filter (\<lambda>(d, t). ?keep d) subs)"
        using keep map_of_SomeD by fastforce
      then have "os_walk (filter_dirs ismount s) (path_join topdir d) t =
          os_walk (filter_dirs ismount s) (path_join topdir d)
            (prune_mounts ismount (path_join topdir d) t)"
        using "2.IH"[of "(d, t)" d t] by simp
      then show ?thesis using look Some by simp
    qed
  qed
  have mapeq: "map (\<lambda>d. case map_of subs d of None \<Rightarrow> []
        | Some t \<Rightarrow> os_walk (filter_dirs ismount s) (path_join topdir d) t) ?ds =
      map (\<lambda>d. case map_of ?subs' d of None \<Rightarrow> []
        | Some t \<Rightarrow> os_walk (filter_dirs ismount s) (path_join topdir d) t) ?ds"
    using sub by (intro map_cong) simp_all
  show ?case
    unfolding prune_mounts.simps os_walk.simps Let_def ds by (simp only: mapeq)
qed

text \<open>Every directory that the walk enters below its start is not a mount point.\<close>

lemma os_walk_roots:
  "item \<in> set (os_walk (filter_dirs ismount s) topdir tree) \<Longrightarrow>
   fst item = topdir \<or> \<not> ismount (fst item)"
proof (induction "filter_dirs ismount s" topdir tree arbitrary: item rule: os_walk.induct)
  case (1 topdir)
  then show ?case by simp
next
  case (2 topdir fs subs)
  let ?ds = "filter_dirs ismount s topdir (map fst subs)"
  from "2.prems" have "item = (topdir, ?ds, fs) \<or>
      (\<exists>d\<in>set ?ds. item \<in> set (case map_of subs d of None \<Rightarrow> []
          | Some t \<Rightarrow> os_walk (filter_dirs ismount s) (path_join topdir d) t))"
    by (auto simp: Let_def)
  then show ?case
  proof
    assume "item = (topdir, ?ds, fs)"
    then show ?thesis by simp
  next
    assume "\<exists>d\<in>set ?ds. item \<in> set (case map_of subs d of None \<Rightarrow> []
          | Some t \<Rightarrow> os_walk (filter_dirs ismount s) (path_join topdir d) t)"
    then obtain d where d: "d \<in> set ?ds"
      and it: "item \<in> set (case map_of subs d of None \<Rightarrow> []
          | Some t \<Rightarrow> os_walk (filter_dirs ismount s) (path_join topdir d) t)"
      by blast
    then obtain t where t: "map_of subs d = Some t"
      by (cases "map_of subs d") auto
    with it have "item \<in> set (os_walk (filter_dirs ismount s) (path_join topdir d) t)"
      by simp
    then have "fst item = path_join topdir d \<or> \<not> ismount (fst item)"
      using "2.hyps"[of ?ds d t item] d t by simp
    moreover have "\<not> ismount (path_join topdir d)"
      using d by (rule filter_dirs_not_mount)
    ultimately show ?thesis by auto
  qed
qed

text \<open>At the filesystem root, the subtrees under the excluded names do not matter.\<close>

lemma os_walk_root_excluded:
  "os_walk (filter_dirs ismount s) ''/'' (FsDir fs subs) =
   os_walk (filter_dirs ismount s) ''/''
     (FsDir fs (filter (\<lambda>(d, t). d \<notin> set (exclude_root_dirs s)) subs))"
proof -
  let ?P = "\<lambda>d. d \<notin> set (exclude_root_dirs s)"
  let ?subs' = "filter (\<lambda>(d, t). ?P d) subs"
  let ?ds = "filter_dirs ismount s ''/'' (map fst subs)"
  have ds: "filter_dirs ismount s ''/'' (map fst ?subs') = ?ds"
    by (simp only: map_fst_filter_key filter_dirs_excluded_removed)
  have "map_of ?subs' d = map_of subs d" if "d \<in> set ?ds" for d
    using filter_dirs_not_excluded[OF that] by (rule map_of_filter_key[where P = ?P])
  then have mapeq: "map (\<lambda>d. case map_of subs d of None \<Rightarrow> []
        | Some t \<Rightarrow> os_walk (filter_dirs ismount s) (path_join ''/'' d) t) ?ds =
      map (\<lambda>d. case map_of ?subs' d of None \<Rightarrow> []
        | Some t \<Rightarrow> os_walk (filter_dirs ismount s) (path_join ''/'' d) t) ?ds"
    by (intro map_cong) simp_all
  show ?thesis
    unfolding os_walk.simps Let_def ds by (simp only: mapeq)
qed

section \<open>Partition figures\<close>

text \<open>
  C1, as the code computes it: for every target whose \<^verbatim>\<open>os.statvfs\<close> succeeds, the object
  is built, its used-bytes figure is the total block count minus the count of all free
  blocks (\<^verbatim>\<open>f_bfree\<close>, which includes the blocks reserved for privileged callers) times the
  fragment size, and its free-bytes figure is the count of free blocks available to
  non-privileged callers (\<^verbatim>\<open>f_bavail\<close>) times the fragment size.
\<close>

theorem partition_usage_figures:
  "\<exists>d. DiskUsage (Some st) ismount tree target = Inr d \<and>
       map_option used (partition' d) = Some ((f_blocks st - f_bfree st) * f_frsize st) \<and>
       map_option free (partition' d) = Some (f_bavail st * f_frsize st)"
  by (simp add: DiskUsage_def get_partition_usage_def)

text \<open>
  The used-bytes figure is not computed from the count available to non-privileged callers:
  with 100 blocks, 50 free and 40 of them available, it is 50 blocks and not 60.
\<close>

theorem partition_used_counterexample:
  "map_option used (partition' (get_partition_usage
      \<lparr>f_bsize = 4096, f_frsize = 4096, f_blocks = 100, f_bfree = 50, f_bavail = 40,
       f_files = 1000, f_ffree = 900, f_favail = 900\<rparr> init_state))
   \<noteq> Some ((100 - 40) * 4096)"
  by (simp add: get_partition_usage_def)

section \<open>The largest files\<close>

text \<open>
  C2: starting from the empty list of \<^verbatim>\<open>__init__\<close>, after every single insertion by
  \<^verbatim>\<open>_process_files\<close> the list has at most 20 entries and is sorted by descending size. The
  list before the insertion splits into the entries at least as large as the new record and
  the smaller ones; the new record is placed between the two parts, so behind the entries
  of equal size and without changing the order of the others, and only the first 20 entries
  are kept (the last one is dropped when there are 21).
\<close>

theorem file_top_k_insertion:
  "length (files (process_files fd (foldl (\<lambda>s fd. process_files fd s) init_state fds))) \<le> 20 \<and>
   sorted_desc fsize (files (process_files fd (foldl (\<lambda>s fd. process_files fd s) init_state fds))) \<and>
   files (foldl (\<lambda>s fd. process_files fd s) init_state fds) =
     filter (\<lambda>y. fsize fd \<le> fsize y) (files (foldl (\<lambda>s fd. process_files fd s) init_state fds)) @
     filter (\<lambda>y. fsize y < fsize fd) (files (foldl (\<lambda>s fd. process_files fd s) init_state fds)) \<and>
   files (process_files fd (foldl (\<lambda>s fd. process_files fd s) init_state fds)) =
     take 20
       (filter (\<lambda>y. fsize fd \<le> fsize y) (files (foldl (\<lambda>s fd. process_files fd s) init_state fds)) @
        fd #
        filter (\<lambda>y. fsize y < fsize fd) (files (foldl (\<lambda>s fd. process_files fd s) init_state fds)))"
proof -
  let ?s = "foldl (\<lambda>s fd. process_files fd s) init_state fds"
  have fs: "files ?s = take 20 (sorted_reverse fsize fds)"
    by (simp add: files_foldl_process_files)
  then have len: "length (files ?s) \<le> 20" by simp
  have srt: "sorted_desc fsize (files ?s)"
    unfolding fs by (rule sorted_desc_take) (rule sorted_desc_sorted_reverse)
  have new: "files (process_files fd ?s) = take 20 (sorted_reverse fsize (files ?s @ [fd]))"
    by (rule files_process_files[OF len])
  have "length (files (process_files fd ?s)) \<le> 20"
    unfolding new by simp
  moreover have "sorted_desc fsize (files (process_files fd ?s))"
    unfolding new by (rule sorted_desc_take) (rule sorted_desc_sorted_reverse)
  moreover have "files ?s = filter (\<lambda>y. fsize fd \<le> fsize y) (files ?s) @
      filter (\<lambda>y. fsize y < fsize fd) (files ?s)"
    by (rule sorted_desc_split[OF srt])
  moreover have "files (process_files fd ?s) =
      take 20 (filter (\<lambda>y. fsize fd \<le> fsize y) (files ?s) @
        fd # filter (\<lambda>y. fsize y < fsize fd) (files ?s))"
    unfolding new by (simp only: sorted_reverse_snoc sorted_reverse_id[OF srt])
  ultimately show ?thesis by blast
qed

text \<open>
  C3: a target directory without subdirectories that holds 25 files whose records have
  pairwise distinct sizes, listed in any order: the final list of files is the 20 largest
  records in descending order, that is, the ascending order of all 25 without its first
  five, reversed; none of the five smallest is in it.
\<close>

theorem top_20_of_25:
  assumes "length fs = 25"
    and "distinct (map fsize (map (\<lambda>e. record_of (target, e)) fs))"
  shows "files (walk_filesystem ismount target (FsDir fs []) (start_state st)) =
           rev (drop 5 (sort_key fsize (map (\<lambda>e. record_of (target, e)) fs))) \<and>
         length (files (walk_filesystem ismount target (FsDir fs []) (start_state st))) = 20 \<and>
         set (take 5 (sort_key fsize (map (\<lambda>e. record_of (target, e)) fs))) \<inter>
           set (files (walk_filesystem ismount target (FsDir fs []) (start_state st))) = {}"
proof -
  let ?recs = "map (\<lambda>e. record_of (target, e)) fs"
  let ?L = "sort_key fsize ?recs"
  have stream: "map record_of (stream_of (os_walk (filter_dirs ismount (start_state st)) target (FsDir fs []))) = ?recs"
    by (simp add: os_walk_single stream_of_def comp_def del: os_walk.simps)
  have len: "length ?L = 25" using assms(1) by simp
  have "files (walk_filesystem ismount target (FsDir fs []) (start_state st)) =
      take 20 (sorted_reverse fsize ?recs)"
    using files_walk_filesystem[of "start_state st" ismount target "FsDir fs []"] stream by simp
  also have "\<dots> = take 20 (rev ?L)"
    by (simp only: sorted_reverse_distinct[OF assms(2)])
  also have "\<dots> = rev (drop 5 ?L)"
    using len by (simp add: take_rev)
  finally have eq: "files (walk_filesystem ismount target (FsDir fs []) (start_state st)) =
      rev (drop 5 ?L)" .
  have "distinct ?recs" using assms(2) by (simp only: distinct_map)
  then have "distinct ?L" by simp
  then have "set (take 5 ?L) \<inter> set (drop 5 ?L) = {}"
    by (rule set_take_disj_set_drop_if_distinct) simp
  then show ?thesis using eq len by simp
qed

theorem top_20_of_25_witness:
  "map fsize (files (walk_filesystem no_mounts ''/t'' (FsDir files25 []) (start_state example_statvfs))) =
     [2500, 2400, 2300, 2200, 2100, 2000, 1900, 1800, 1700, 1600,
      1500, 1400, 1300, 1200, 1100, 1000, 900, 800, 700, 600] \<and>
   map fsize (take 5 (sort_key fsize (map (\<lambda>e. record_of (''/t'', e)) files25))) =
     [100, 200, 300, 400, 500]"
proof -
  have len: "length files25 = 25"
    by (simp add: files25_def)
  have dist: "distinct (map fsize (map (\<lambda>e. record_of (''/t'', e)) files25))"
    by code_simp
  have top: "map fsize (rev (drop 5 (sort_key fsize (map (\<lambda>e. record_of (''/t'', e)) files25)))) =
     [2500, 2400, 2300, 2200, 2100, 2000, 1900, 1800, 1700, 1600,
      1500, 1400, 1300, 1200, 1100, 1000, 900, 800, 700, 600]"
    by code_simp
  have low: "map fsize (take 5 (sort_key fsize (map (\<lambda>e. record_of (''/t'', e)) files25))) =
     [100, 200, 300, 400, 500]"
    by code_simp
  have "files (walk_filesystem no_mounts ''/t'' (FsDir files25 []) (start_state example_statvfs)) =
      rev (drop 5 (sort_key fsize (map (\<lambda>e. record_of (''/t'', e)) files25)))"
    using top_20_of_25[OF len dist, of no_mounts example_statvfs] by (rule conjunct1)
  then show ?thesis
    using top low by (simp only: simp_thms)
qed

section \<open>The largest directories\<close>

text \<open>
  C6: after \<^verbatim>\<open>__init__\<close> has run the walk and \<^verbatim>\<open>_sort_dirs\<close>, the list of directories has at
  most 10 entries, is sorted by descending accumulated size, and the directory count is at
  least its length.
\<close>

theorem top_dirs_bounds:
  "length (dirs (walk_filesystem ismount target tree (start_state st))) \<le> 10 \<and>
   sorted_desc dir_size (dirs (walk_filesystem ismount target tree (start_state st))) \<and>
   length (dirs (walk_filesystem ismount target tree (start_state st))) \<le>
     dir_count (walk_filesystem ismount target tree (start_state st))"
proof -
  let ?h = "dirs_holder (walk_loop ismount target tree (start_state st))"
  have d: "dirs (walk_filesystem ismount target tree (start_state st)) =
      take 10 (map (\<lambda>(k, v). \<lparr>dir_name = k, dir_size = v\<rparr>) (sorted_reverse snd ?h))"
    and c: "dir_count (walk_filesystem ismount target tree (start_state st)) = length ?h"
    by (simp_all add: walk_filesystem_dirs)
  have "sorted_desc dir_size (take 10 (map (\<lambda>(k, v). \<lparr>dir_name = k, dir_size = v\<rparr>)
      (sorted_reverse snd ?h)))"
    by (intro sorted_desc_take sorted_desc_map_dir_data sorted_desc_sorted_reverse)
  then show ?thesis
    unfolding d c by simp
qed

text \<open>
  C9, as the code computes it: the directory count is the number of distinct directories in
  which the walk processed at least one file entry (the stream pairs every file entry with
  the directory it was listed in). It is the number of entries of the complete accumulation
  map, taken before the list is cut to 10. A visited directory without file entries has no
  entry in the map and is not counted.
\<close>

theorem dir_count_is_dirs_with_files:
  "dir_count (walk_filesystem ismount target tree (start_state st)) =
     card (fst ` set (stream_of (os_walk (filter_dirs ismount (start_state st)) target tree))) \<and>
   dir_count (walk_filesystem ismount target tree (start_state st)) =
     length (dirs_holder (walk_loop ismount target tree (start_state st)))"
  by (simp add: walk_filesystem_dirs walk_loop_events length_dirs_holder_walk_events)

text \<open>
  A target that holds only a subdirectory with one file: the walk visits two distinct
  directories, and the directory count is 1.
\<close>

theorem dir_count_counterexample:
  "card (set (map fst (os_walk (filter_dirs no_mounts (start_state example_statvfs)) ''/t'' tree_sub_only))) = 2 \<and>
   dir_count (walk_filesystem no_mounts ''/t'' tree_sub_only (start_state example_statvfs)) = 1"
  by code_simp

section \<open>Conservation of bytes\<close>

text \<open>
  C5, as the code computes it: sizes and directory totals are doubles. When the sizes that
  \<^verbatim>\<open>os.stat\<close> reports are not negative and sum to at most \<open>2 ^ 53\<close> bytes, every double in
  the computation is exact: at the end of the two loops, before \<^verbatim>\<open>_sort_dirs\<close> cuts the list,
  the sum of all directory totals equals the sum of the sizes of the successfully stat'ed
  files, which is also the sum of the sizes of all emitted records.
\<close>

theorem directory_totals_conservation:
  assumes "\<forall>x\<in>set (stat_sizes (stream_of (os_walk (filter_dirs ismount (start_state st)) target tree))). 0 \<le> x"
    and "sum_list (stat_sizes (stream_of (os_walk (filter_dirs ismount (start_state st)) target tree))) \<le> 2 ^ 53"
  shows "sum_list (map snd (dirs_holder (walk_loop ismount target tree (start_state st)))) =
           sum_list (stat_sizes (stream_of (os_walk (filter_dirs ismount (start_state st)) target tree))) \<and>
         sum_list (map (\<lambda>ev. fsize (record_of ev))
             (stream_of (os_walk (filter_dirs ismount (start_state st)) target tree))) =
           sum_list (stat_sizes (stream_of (os_walk (filter_dirs ismount (start_state st)) target tree)))"
proof -
  let ?evs = "stream_of (os_walk (filter_dirs ismount (start_state st)) target tree)"
  have "sum_list (map snd (dirs_holder (walk_events (start_state st) ?evs))) =
      sum_list (map snd (dirs_holder (start_state st))) + sum_list (stat_sizes ?evs)"
    using assms by (intro walk_events_sum) simp_all
  then have "sum_list (map snd (dirs_holder (walk_loop ismount target tree (start_state st)))) =
      sum_list (stat_sizes ?evs)"
    by (simp add: walk_loop_events)
  moreover have "sum_list (map (\<lambda>ev. fsize (record_of ev)) ?evs) = sum_list (stat_sizes ?evs)"
    using assms by (rule record_sizes_exact)
  ultimately show ?thesis by blast
qed

theorem directory_totals_conservation_witness:
  "sum_list (map snd (dirs_holder
      (walk_loop example_ismount ''/t'' tree_with_mounts (start_state example_statvfs)))) = 30"
proof -
  have nonneg: "\<forall>x\<in>set (stat_sizes (stream_of (os_walk
      (filter_dirs example_ismount (start_state example_statvfs)) ''/t'' tree_with_mounts))). 0 \<le> x"
    by code_simp
  have bound: "sum_list (stat_sizes (stream_of (os_walk
      (filter_dirs example_ismount (start_state example_statvfs)) ''/t'' tree_with_mounts))) \<le> 2 ^ 53"
    by code_simp
  have val: "sum_list (stat_sizes (stream_of (os_walk
      (filter_dirs example_ismount (start_state example_statvfs)) ''/t'' tree_with_mounts))) = 30"
    by code_simp
  show ?thesis
    using directory_totals_conservation[OF nonneg bound] val by (simp only:)
qed

text \<open>
  Beyond \<open>2 ^ 53\<close> bytes the sum of doubles loses bytes: a directory with one file of
  \<open>2 ^ 53\<close> bytes and two files of one byte gets the total \<open>2 ^ 53\<close>, while the sizes of the
  three records add up to \<open>2 ^ 53 + 2\<close>.
\<close>

theorem directory_totals_counterexample:
  "sum_list (map snd (dirs_holder
      (walk_loop no_mounts ''/t'' tree_huge (start_state example_statvfs)))) = 2 ^ 53 \<and>
   sum_list (map (\<lambda>ev. fsize (record_of ev))
      (stream_of (os_walk (filter_dirs no_mounts (start_state example_statvfs)) ''/t'' tree_huge))) =
     2 ^ 53 + 2 \<and>
   sum_list (stat_sizes
      (stream_of (os_walk (filter_dirs no_mounts (start_state example_statvfs)) ''/t'' tree_huge))) =
     2 ^ 53 + 2"
  by code_simp

section \<open>Files whose stat fails\<close>

text \<open>
  C4: at any point of a walk over entries whose reported sizes are not negative, a file
  entry whose \<^verbatim>\<open>os.stat\<close> raises \<^verbatim>\<open>OSError\<close> gets a record with size 0 and neither name nor
  modification time; the file count grows by exactly 1; the total of its directory keeps its
  value (a new entry starts at 0), no other total changes and the sum of the totals is the
  same; the record is appended behind all entries of the list of files when that has fewer
  than 20 entries and is dropped otherwise, so every entry stays where it was. All functions
  involved are total: no error comes out of the step.
\<close>

theorem stat_failure_step:
  assumes "\<forall>x\<in>set (stat_sizes evs). 0 \<le> x"
  shows "get_file_data (path_join r n) None = \<lparr>name = None, modified = None, fsize = 0\<rparr> \<and>
    file_count (walk_file r (walk_events (start_state st) evs) (n, None)) =
      file_count (walk_events (start_state st) evs) + 1 \<and>
    map_of (dirs_holder (walk_file r (walk_events (start_state st) evs) (n, None))) =
      (map_of (dirs_holder (walk_events (start_state st) evs)))
        (r \<mapsto> (case map_of (dirs_holder (walk_events (start_state st) evs)) r of
                  None \<Rightarrow> 0 | Some v \<Rightarrow> v)) \<and>
    sum_list (map snd (dirs_holder (walk_file r (walk_events (start_state st) evs) (n, None)))) =
      sum_list (map snd (dirs_holder (walk_events (start_state st) evs))) \<and>
    files (walk_file r (walk_events (start_state st) evs) (n, None)) =
      (if length (files (walk_events (start_state st) evs)) < 20
       then files (walk_events (start_state st) evs) @ [get_file_data (path_join r n) None]
       else files (walk_events (start_state st) evs))"
proof -
  let ?s = "walk_events (start_state st) evs"
  let ?fd = "get_file_data (path_join r n) None"
  have fd: "?fd = \<lparr>name = None, modified = None, fsize = 0\<rparr>"
    by (simp add: get_file_data_def)
  have rec: "record_of (r, n, None) = ?fd"
    by (simp add: record_of_def)
  have cnt: "file_count (walk_file r ?s (n, None)) = file_count ?s + 1"
    by simp
  have dbl: "\<forall>v\<in>snd ` set (dirs_holder ?s). py_float v = v"
    by (rule dirs_holder_walk_events_double) simp
  have dh: "map_of (dirs_holder (walk_file r ?s (n, None))) =
        (map_of (dirs_holder ?s))(r \<mapsto> (case map_of (dirs_holder ?s) r of None \<Rightarrow> 0 | Some v \<Rightarrow> v)) \<and>
      sum_list (map snd (dirs_holder (walk_file r ?s (n, None)))) = sum_list (map snd (dirs_holder ?s))"
  proof (cases "map_of (dirs_holder ?s) r")
    case None
    then have "dirs_holder (walk_file r ?s (n, None)) = AList.update r 0 (dirs_holder ?s)"
      by (simp add: dirs_holder_walk_file rec fd)
    then show ?thesis
      using None sum_update_None[OF None, of 0] by (simp add: update_conv')
  next
    case (Some v)
    then have "v \<in> snd ` set (dirs_holder ?s)"
      using map_of_SomeD[OF Some] by force
    then have "py_float v = v" using dbl by blast
    then have "py_add v 0 = v" by (simp add: py_add_def)
    then have "dirs_holder (walk_file r ?s (n, None)) = AList.update r v (dirs_holder ?s)"
      using Some by (simp add: dirs_holder_walk_file rec fd)
    then show ?thesis
      using Some sum_update_Some[OF Some, of v] by (simp add: update_conv')
  qed
  have len: "length (files ?s) \<le> 20" and srt: "sorted_desc fsize (files ?s)"
    by (simp_all add: files_walk_events_bounds)
  have nonneg: "\<forall>f\<in>set (files ?s). 0 \<le> fsize f"
    using assms by (intro files_walk_events_nonneg) simp
  have "files (walk_file r ?s (n, None)) = take 20 (sorted_reverse fsize (files ?s @ [?fd]))"
    using files_process_files[OF len, of ?fd] by (simp add: files_walk_file rec)
  also have "\<dots> = take 20 (files ?s @ [?fd])"
    using sorted_reverse_snoc_zero[OF srt nonneg, of ?fd] by (simp add: fd)
  also have "\<dots> = (if length (files ?s) < 20 then files ?s @ [?fd] else files ?s)"
    using len by simp
  finally have fl: "files (walk_file r ?s (n, None)) =
      (if length (files ?s) < 20 then files ?s @ [?fd] else files ?s)" .
  show ?thesis using fd cnt dh fl by blast
qed

theorem stat_failure_step_witness:
  "map fsize (files (walk_file ''/t''
      (walk_events (start_state example_statvfs)
         [(''/t'', reg ''a'' 100), (''/t'', reg ''b'' 5000), (''/t'', reg ''c'' 1)])
      (''link'', None))) = [5000, 100, 1, 0] \<and>
   file_count (walk_file ''/t''
      (walk_events (start_state example_statvfs)
         [(''/t'', reg ''a'' 100), (''/t'', reg ''b'' 5000), (''/t'', reg ''c'' 1)])
      (''link'', None)) = 4 \<and>
   sum_list (map snd (dirs_holder (walk_file ''/t''
      (walk_events (start_state example_statvfs)
         [(''/t'', reg ''a'' 100), (''/t'', reg ''b'' 5000), (''/t'', reg ''c'' 1)])
      (''link'', None)))) = 5101"
proof -
  let ?evs = "[(''/t'', reg ''a'' 100), (''/t'', reg ''b'' 5000), (''/t'', reg ''c'' 1)]"
  let ?s = "walk_events (start_state example_statvfs) ?evs"
  let ?s' = "walk_file ''/t'' ?s (''link'', None)"
  have h: "\<forall>x\<in>set (stat_sizes ?evs). 0 \<le> x"
    by code_simp
  note step = stat_failure_step[OF h, of "''/t''" "''link''" example_statvfs]
  have len: "length (files ?s) < 20"
    by code_simp
  have sizes: "map fsize (files ?s @ [get_file_data (path_join ''/t'' ''link'') None]) =
      [5000, 100, 1, 0]"
    by code_simp
  have cnt: "file_count ?s + 1 = 4"
    by code_simp
  have tot: "sum_list (map snd (dirs_holder ?s)) = 5101"
    by code_simp
  have "files ?s' = files ?s @ [get_file_data (path_join ''/t'' ''link'') None]"
    using step len by (simp only: if_True)
  then have "map fsize (files ?s') = [5000, 100, 1, 0]"
    using sizes by (simp only:)
  moreover have "file_count ?s' = 4"
    using step cnt by (simp only:)
  moreover have "sum_list (map snd (dirs_holder ?s')) = 5101"
    using step tot by (simp only:)
  ultimately show ?thesis by blast
qed

section \<open>Mount points and the excluded root directories\<close>

text \<open>
  C7: the walk enters no directory below its target that is a mount point: every directory
  it visits is the target itself or not a mount point. The result of the whole scan is the
  result for the tree without its nested mount points and all that lies under them, so the
  files under a nested mount point reach neither the file count (which is the number of file
  entries that the walk of the pruned tree yields) nor the list of files nor the directory
  totals.
\<close>

theorem mount_points_not_crossed:
  "(\<forall>item\<in>set (os_walk (filter_dirs ismount (start_state st)) target tree).
      fst item = target \<or> \<not> ismount (fst item)) \<and>
   walk_filesystem ismount target tree (start_state st) =
     walk_filesystem ismount target (prune_mounts ismount target tree) (start_state st) \<and>
   file_count (walk_filesystem ismount target tree (start_state st)) =
     length (stream_of (os_walk (filter_dirs ismount (start_state st)) target
       (prune_mounts ismount target tree)))"
proof -
  have "\<forall>item\<in>set (os_walk (filter_dirs ismount (start_state st)) target tree).
      fst item = target \<or> \<not> ismount (fst item)"
    using os_walk_roots by blast
  moreover have eq: "walk_filesystem ismount target tree (start_state st) =
      walk_filesystem ismount target (prune_mounts ismount target tree) (start_state st)"
    using os_walk_prune_mounts[of ismount "start_state st" target tree]
    by (simp only: walk_filesystem_def walk_loop_def)
  moreover have "file_count (walk_filesystem ismount target tree (start_state st)) =
      length (stream_of (os_walk (filter_dirs ismount (start_state st)) target
        (prune_mounts ismount target tree)))"
    unfolding eq by (simp add: walk_loop_events)
  ultimately show ?thesis by blast
qed

theorem mount_points_not_crossed_witness:
  "walk_filesystem example_ismount ''/t'' tree_with_mounts (start_state example_statvfs) =
     walk_filesystem example_ismount ''/t''
       (FsDir [reg ''a'' 10] [(''s'', FsDir [reg ''b'' 20] [])]) (start_state example_statvfs) \<and>
   file_count (walk_filesystem example_ismount ''/t'' tree_with_mounts
     (start_state example_statvfs)) = 2 \<and>
   map fst (os_walk (filter_dirs example_ismount (start_state example_statvfs)) ''/t''
     tree_with_mounts) = [''/t'', ''/t/s'']"
proof -
  have pruned: "prune_mounts example_ismount ''/t'' tree_with_mounts =
      FsDir [reg ''a'' 10] [(''s'', FsDir [reg ''b'' 20] [])]"
    by code_simp
  have cnt: "length (stream_of (os_walk (filter_dirs example_ismount (start_state example_statvfs))
      ''/t'' (FsDir [reg ''a'' 10] [(''s'', FsDir [reg ''b'' 20] [])]))) = 2"
    by code_simp
  have roots: "map fst (os_walk (filter_dirs example_ismount (start_state example_statvfs)) ''/t''
     tree_with_mounts) = [''/t'', ''/t/s'']"
    by code_simp
  note inst = mount_points_not_crossed[of example_ismount example_statvfs "''/t''" tree_with_mounts]
  have "walk_filesystem example_ismount ''/t'' tree_with_mounts (start_state example_statvfs) =
     walk_filesystem example_ismount ''/t''
       (FsDir [reg ''a'' 10] [(''s'', FsDir [reg ''b'' 20] [])]) (start_state example_statvfs)"
    using inst[THEN conjunct2, THEN conjunct1] by (simp only: pruned)
  moreover have "file_count (walk_filesystem example_ismount ''/t'' tree_with_mounts
     (start_state example_statvfs)) = 2"
    using inst[THEN conjunct2, THEN conjunct2] by (simp only: pruned cnt)
  ultimately show ?thesis using roots by blast
qed

text \<open>
  C8: whenever the directory being walked is \<^verbatim>\<open>/\<close>, none of the names \<^verbatim>\<open>dev\<close>, \<^verbatim>\<open>proc\<close> and
  \<^verbatim>\<open>selinux\<close> is left in the list of subdirectories to enter; and the result of a scan
  whose target is \<^verbatim>\<open>/\<close> is the result for the root without these three subdirectories, so
  nothing under them is visited or counted.
\<close>

theorem root_pseudo_filesystems_skipped:
  "set (filter_dirs ismount (start_state st) ''/'' ds) \<inter> {''dev'', ''proc'', ''selinux''} = {} \<and>
   walk_filesystem ismount ''/'' (FsDir fs subs) (start_state st) =
     walk_filesystem ismount ''/''
       (FsDir fs (filter (\<lambda>(d, t). d \<notin> {''dev'', ''proc'', ''selinux''}) subs)) (start_state st)"
proof -
  have ex: "set (exclude_root_dirs (start_state st)) = {''dev'', ''proc'', ''selinux''}"
    by simp
  have "set (filter_dirs ismount (start_state st) ''/'' ds) \<inter> set (exclude_root_dirs (start_state st)) = {}"
    using filter_dirs_not_excluded[of _ ismount "start_state st" ds] by blast
  then have "set (filter_dirs ismount (start_state st) ''/'' ds) \<inter> {''dev'', ''proc'', ''selinux''} = {}"
    by (simp only: ex)
  moreover have "walk_filesystem ismount ''/'' (FsDir fs subs) (start_state st) =
     walk_filesystem ismount ''/''
       (FsDir fs (filter (\<lambda>(d, t). d \<notin> {''dev'', ''proc'', ''selinux''}) subs)) (start_state st)"
    using os_walk_root_excluded[of ismount "start_state st" fs subs]
    by (simp only: walk_filesystem_def walk_loop_def ex)
  ultimately show ?thesis by blast
qed

theorem root_pseudo_filesystems_skipped_witness:
  "walk_filesystem no_mounts ''/'' root_tree (start_state example_statvfs) =
     walk_filesystem no_mounts ''/''
       (FsDir [reg ''vmlinuz'' 5] [(''home'', FsDir [reg ''u'' 9] [])]) (start_state example_statvfs) \<and>
   map fst (os_walk (filter_dirs no_mounts (start_state example_statvfs)) ''/'' root_tree) =
     [''/'', ''/home'']"
proof -
  have kept: "filter (\<lambda>(d, t). d \<notin> {''dev'', ''proc'', ''selinux''})
      [(''dev'', FsDir [reg ''sda'' 100] []),
       (''proc'', FsDir [reg ''kcore'' 200] [(''1'', FsDir [reg ''mem'' 300] [])]),
       (''selinux'', FsDir [reg ''enforce'' 400] []),
       (''home'', FsDir [reg ''u'' 9] [])] = [(''home'', FsDir [reg ''u'' 9] [])]"
    by simp
  have roots: "map fst (os_walk (filter_dirs no_mounts (start_state example_statvfs)) ''/'' root_tree) =
     [''/'', ''/home'']"
    by code_simp
  have "walk_filesystem no_mounts ''/'' root_tree (start_state example_statvfs) =
     walk_filesystem no_mounts ''/''
       (FsDir [reg ''vmlinuz'' 5] [(''home'', FsDir [reg ''u'' 9] [])]) (start_state example_statvfs)"
    unfolding root_tree_def
    using root_pseudo_filesystems_skipped[where ismount = no_mounts and st = example_statvfs
        and fs = "[reg ''vmlinuz'' 5]"
        and subs = "[(''dev'', FsDir [reg ''sda'' 100] []),
          (''proc'', FsDir [reg ''kcore'' 200] [(''1'', FsDir [reg ''mem'' 300] [])]),
          (''selinux'', FsDir [reg ''enforce'' 400] []),
          (''home'', FsDir [reg ''u'' 9] [])]", THEN conjunct2]
    by (simp only: kept)
  then show ?thesis using roots by blast
qed

end
